theory Spec2Isabelle
  imports Main "HOL-Library.Word"
begin

section \<open>Values, effects and failures\<close>

text \<open>
  The library is written in the type-value encoding: it keeps the type of an argument
  and reads the argument back as \<^verbatim>\<open>T{}\<close>. A predicate is always a \<^verbatim>\<open>bool_<b>\<close> and an
  iteration index is always written \<^verbatim>\<open>sz_v<n>\<close>, so the model carries the encoded
  \<^typ>\<open>bool\<close> and \<^verbatim>\<open>std::size_t\<close> (64 bits). An accumulator is any object the caller
  passes: either its type fixes its value, as for an \<^verbatim>\<open>integral_constant<T, v>\<close>
  (\<^verbatim>\<open>sz_v<v>\<close>, \<^verbatim>\<open>int_v<v>\<close>), or the object holds its value as data, as an \<^verbatim>\<open>int\<close>
  does. \<open>decltype\<close> gives the type of an object and \<open>value_init\<close> the object
  \<^verbatim>\<open>T{}\<close> of a type: the constant itself, or zero for an arithmetic type.

  Handlers and loop bodies are C++ callables and may print or write: an effect is a
  change of a world \<open>'w\<close> that every call takes and returns. A call may also yield no
  usable value; these are the three ways.
\<close>

datatype 'v object =
  encoded 'v    \<comment> \<open>an object of a type that encodes the value\<close>
| run_time 'v    \<comment> \<open>an object of an arithmetic type, holding the value as data\<close>

datatype 'v cpp_type =
  encoded_t 'v  \<comment> \<open>the type of the constant\<close>
| arithmetic_t   \<comment> \<open>the arithmetic type\<close>

fun decltype :: "'v object \<Rightarrow> 'v cpp_type" where
  "decltype (encoded v) = encoded_t v"
| "decltype (run_time v) = arithmetic_t"

fun value_init :: "('v::zero) cpp_type \<Rightarrow> 'v object" where
  "value_init (encoded_t v) = encoded v"
| "value_init arithmetic_t = run_time 0"

text \<open>The conversion of an object to its value, as in \<^verbatim>\<open>x == -999\<close> or \<^verbatim>\<open>a + x\<close>.\<close>

fun value_of :: "'v object \<Rightarrow> 'v" where
  "value_of (encoded v) = v"
| "value_of (run_time v) = v"

type_synonym size_t = "64 word"

datatype error =
  not_callable   \<comment> \<open>the object has no call operator for these arguments\<close>
| no_value       \<comment> \<open>a \<^verbatim>\<open>void\<close> was returned where a value is used\<close>
| out_of_fuel    \<comment> \<open>the budget of nested calls through the adapter is used up\<close>

type_synonym ('a, 'r, 'w) callable = "'a \<Rightarrow> 'w \<Rightarrow> error + ('r \<times> 'w)"

section \<open>\<^verbatim>\<open>static_if\<close>: the branch chain\<close>

text \<open>
  \<^verbatim>\<open>static_if_impl<true>\<close>, \<^verbatim>\<open>static_if_impl<false>\<close> and
  \<^verbatim>\<open>static_if_result<TFunctionToCall>\<close> are the three shapes a chain value takes. The
  members \<^verbatim>\<open>then\<close> and \<^verbatim>\<open>else_\<close> are \<open>then_f\<close> and \<open>else_f\<close>, after their parameter.
\<close>

datatype ('a, 'r, 'w) branch_chain =
  static_if_impl bool
| static_if_result "('a, 'r, 'w) callable"

definition make_static_if_result :: "('a, 'r, 'w) callable \<Rightarrow> ('a, 'r, 'w) branch_chain" where
  "make_static_if_result f = static_if_result f"

definition static_if :: "bool \<Rightarrow> ('a, 'r, 'w) branch_chain" where
  "static_if TPredicate = static_if_impl TPredicate"

fun then_f :: "('a, 'r, 'w) branch_chain \<Rightarrow> ('a, 'r, 'w) callable \<Rightarrow> ('a, 'r, 'w) branch_chain" where
  "then_f (static_if_impl True) f = make_static_if_result f"
| "then_f (static_if_impl False) f = static_if_impl False"
| "then_f (static_if_result g) f = static_if_result g"

fun else_f :: "('a, 'r, 'w) branch_chain \<Rightarrow> ('a, 'r, 'w) callable \<Rightarrow> ('a, 'r, 'w) branch_chain" where
  "else_f (static_if_impl True) f = static_if_impl True"
| "else_f (static_if_impl False) f = make_static_if_result f"
| "else_f (static_if_result g) f = static_if_result g"

fun else_if :: "('a, 'r, 'w) branch_chain \<Rightarrow> bool \<Rightarrow> ('a, 'r, 'w) branch_chain" where
  "else_if (static_if_impl True) TPredicate = static_if_impl True"
| "else_if (static_if_impl False) TPredicate = static_if TPredicate"
| "else_if (static_if_result g) TPredicate = static_if_result g"

text \<open>
  The terminal call. \<^verbatim>\<open>static_if_impl<true>\<close> declares no call operator;
  \<^verbatim>\<open>static_if_impl<false>\<close> has the dummy one, which takes anything and returns
  \<^verbatim>\<open>void\<close> (\<open>None\<close>); a result is the handler it inherits from.
\<close>

fun call :: "('a, 'r, 'w) branch_chain \<Rightarrow> 'a \<Rightarrow> 'w \<Rightarrow> error + ('r option \<times> 'w)" where
  "call (static_if_impl True) xs w = Inl not_callable"
| "call (static_if_impl False) xs w = Inr (None, w)"
| "call (static_if_result f) xs w =
     (case f xs w of Inl e \<Rightarrow> Inl e | Inr (r, w') \<Rightarrow> Inr (Some r, w'))"

text \<open>\<^verbatim>\<open>return chain(args);\<close> in a function whose result is used as a value.\<close>

fun returned :: "error + ('r option \<times> 'w) \<Rightarrow> error + ('r \<times> 'w)" where
  "returned (Inl e) = Inl e"
| "returned (Inr (Some r, w)) = Inr (r, w)"
| "returned (Inr (None, w)) = Inl no_value"

section \<open>The state record\<close>

text \<open>
  \<^verbatim>\<open>state<TItr, TAcc, TAction>\<close> has no data member: a state is its three template
  arguments, and its accessors return \<^verbatim>\<open>TItr{}\<close>, \<^verbatim>\<open>TAcc{}\<close> and \<^verbatim>\<open>TAction{}\<close>.
  \<^verbatim>\<open>make_state\<close> takes three objects and keeps their types only. \<^verbatim>\<open>continue_\<close> and
  \<^verbatim>\<open>break_\<close> are \<open>continue_acc\<close> and \<open>break_acc\<close>; their overloads without argument are
  \<open>continue_0\<close> and \<open>break_0\<close>.
\<close>

datatype action = a_continue | a_break

record 'v state =
  TItr :: size_t
  TAcc :: "'v cpp_type"
  TAction :: action

definition iteration :: "'v state \<Rightarrow> size_t" where
  "iteration s = TItr s"

definition accumulator :: "('v::zero) state \<Rightarrow> 'v object" where
  "accumulator s = value_init (TAcc s)"

definition next_action :: "'v state \<Rightarrow> action" where
  "next_action s = TAction s"

definition make_state :: "size_t \<Rightarrow> 'v object \<Rightarrow> action \<Rightarrow> 'v state" where
  "make_state i a na = \<lparr>TItr = i, TAcc = decltype a, TAction = na\<rparr>"

definition advance_state :: "'b state \<Rightarrow> 'v object \<Rightarrow> action \<Rightarrow> 'v state" where
  "advance_state s a na = make_state (iteration s + 1) a na"

definition continue_acc :: "'b state \<Rightarrow> 'v object \<Rightarrow> 'v state" where
  "continue_acc s new_acc = advance_state s new_acc a_continue"

definition break_acc :: "'b state \<Rightarrow> 'v object \<Rightarrow> 'v state" where
  "break_acc s new_acc = advance_state s new_acc a_break"

definition continue_0 :: "('v::zero) state \<Rightarrow> 'v state" where
  "continue_0 s = continue_acc s (accumulator s)"

definition break_0 :: "('v::zero) state \<Rightarrow> 'v state" where
  "break_0 s = break_acc s (accumulator s)"

section \<open>The self-reference adapter\<close>

text \<open>
  \<^verbatim>\<open>y_combinator(f)(xs...)\<close> is \<^verbatim>\<open>f(ref(*this), xs...)\<close>: the callable \<open>f\<close> gets the
  adapter itself to recurse through. The first argument bounds the depth of the calls
  nested through the adapter, as the compiler's instantiation depth and the call stack
  do; a call that needs more does not return.
\<close>

fun y_combinator ::
  "nat \<Rightarrow> (('a, 'r, 'w) callable \<Rightarrow> ('a, 'r, 'w) callable) \<Rightarrow> ('a, 'r, 'w) callable" where
  "y_combinator 0 f xs w = Inl out_of_fuel"
| "y_combinator (Suc n) f xs w = f (y_combinator n f) xs w"

section \<open>\<^verbatim>\<open>static_for\<close>: the loop engine\<close>

type_synonym ('v, 'x, 'w) body = "'v state \<Rightarrow> 'x \<Rightarrow> 'w \<Rightarrow> 'v state \<times> 'w"

text \<open>
  The \<^verbatim>\<open>step\<close> lambda takes \<^verbatim>\<open>(self, state, x, xs...)\<close>: the pack of the elements left
  is the list \<open>x # xs\<close>, and no call matches an empty one.
\<close>

fun step ::
  "('v::zero, 'x, 'w) body \<Rightarrow> ('v state \<times> 'x list, 'v object, 'w) callable
     \<Rightarrow> ('v state \<times> 'x list, 'v object, 'w) callable" where
  "step body self (state, []) w = Inl not_callable"
| "step body self (state, x # xs) w =
     (case body state x w of (next_state, w1) \<Rightarrow>
        let last_iteration = (length xs = 0);
            must_break = (next_action next_state = a_break)
        in returned
             (call
                (else_f
                   (then_f (static_if (must_break \<or> last_iteration))
                      (\<lambda>_ w'. Inr (accumulator next_state, w')))
                   (\<lambda>xself. xself (next_state, xs)))
                self w1))"

definition static_for ::
  "nat \<Rightarrow> ('v::zero, 'x, 'w) body \<Rightarrow> 'v object \<Rightarrow> 'x list \<Rightarrow> 'w
     \<Rightarrow> error + ('v object \<times> 'w)" where
  "static_for fuel body acc xs w =
     returned
       (call
          (else_f
             (then_f (static_if (length xs = 0)) (\<lambda>_ w'. Inr (acc, w')))
             (\<lambda>(xstep, ys).
                let initial_state = make_state 0 acc a_continue
                in y_combinator fuel xstep (initial_state, ys)))
          (step body, xs) w)"

section \<open>Chains as the caller writes them\<close>

text \<open>
  A branch chain is written
  \<^verbatim>\<open>static_if(p1).then(h1).else_if(p2).then(h2) ... .else_(d)\<close>: a first branch, further
  branches, and a default handler or none. \<open>branch_chain\<close> builds the chain value of such
  a text with the members above, in the order of the text.
\<close>

fun chain_from ::
  "('a, 'r, 'w) branch_chain \<Rightarrow> (bool \<times> ('a, 'r, 'w) callable) list \<Rightarrow> ('a, 'r, 'w) branch_chain" where
  "chain_from c [] = c"
| "chain_from c ((p, h) # bs) = chain_from (then_f (else_if c p) h) bs"

definition branch_chain ::
  "bool \<times> ('a, 'r, 'w) callable \<Rightarrow> (bool \<times> ('a, 'r, 'w) callable) list
     \<Rightarrow> ('a, 'r, 'w) callable option \<Rightarrow> ('a, 'r, 'w) branch_chain" where
  "branch_chain b bs d =
     (let c = chain_from (then_f (static_if (fst b)) (snd b)) bs
      in case d of None \<Rightarrow> c | Some f \<Rightarrow> else_f c f)"

text \<open>
  To see which handlers a terminal call runs, a handler is given a tag and made to
  append it to a log kept beside the world, each time it is invoked and returns.
\<close>

definition tracked :: "'n \<Rightarrow> ('a, 'r, 'w) callable \<Rightarrow> ('a, 'r, 'w \<times> 'n list) callable" where
  "tracked n h xs = (\<lambda>(w, log).
     case h xs w of Inl e \<Rightarrow> Inl e | Inr (r, w') \<Rightarrow> Inr (r, (w', log @ [n])))"

definition tagged :: "bool \<times> 'n \<times> ('a, 'r, 'w) callable \<Rightarrow> bool \<times> ('a, 'r, 'w \<times> 'n list) callable" where
  "tagged = (\<lambda>(p, n, h). (p, tracked n h))"

text \<open>The three chain-extension operations, as data, to apply any sequence of them.\<close>

datatype ('a, 'r, 'w) chain_op =
  op_then "('a, 'r, 'w) callable"
| op_else_if bool
| op_else "('a, 'r, 'w) callable"

fun chain_extend :: "('a, 'r, 'w) branch_chain \<Rightarrow> ('a, 'r, 'w) chain_op \<Rightarrow> ('a, 'r, 'w) branch_chain" where
  "chain_extend c (op_then f) = then_f c f"
| "chain_extend c (op_else_if p) = else_if c p"
| "chain_extend c (op_else f) = else_f c f"

section \<open>The loop as a fold\<close>

text \<open>
  The left fold of the body over a sequence threads the state and the world from one
  element to the next. The break point of a sequence is the first position whose
  element makes the fold produce a state with action Break; the sequence up to the
  break point ends with that element, and is the whole sequence where there is none.
\<close>

definition fold_body :: "('v, 'x, 'w) body \<Rightarrow> 'v state \<times> 'w \<Rightarrow> 'x list \<Rightarrow> 'v state \<times> 'w" where
  "fold_body body sw xs = foldl (\<lambda>(state, w) x. body state x w) sw xs"

definition break_point :: "('v, 'x, 'w) body \<Rightarrow> 'v state \<times> 'w \<Rightarrow> 'x list \<Rightarrow> nat option" where
  "break_point body sw xs =
     find (\<lambda>k. next_action (fst (fold_body body sw (take (Suc k) xs))) = a_break) [0..<length xs]"

definition up_to_break :: "('v, 'x, 'w) body \<Rightarrow> 'v state \<times> 'w \<Rightarrow> 'x list \<Rightarrow> 'x list" where
  "up_to_break body sw xs =
     (case break_point body sw xs of None \<Rightarrow> xs | Some k \<Rightarrow> take (Suc k) xs)"

text \<open>
  The body of the scenarios: it adds \<open>x\<close> to the accumulator, unless \<open>x\<close> is \<open>-999\<close>, where
  it breaks and keeps the accumulator (the loop body of \<^verbatim>\<open>example0\<close> in \<^verbatim>\<open>p09.cpp\<close>, without
  its printing). The new accumulator is a constant, \<^verbatim>\<open>sz_v<ce_state.accumulator() + ce_x>\<close>.
\<close>

definition add_unless_sentinel :: "(int, int, 'w) body" where
  "add_unless_sentinel state x w =
     (if x = - 999 then break_0 state
      else continue_acc state (encoded (value_of (accumulator state) + x)), w)"

text \<open>
  The body of the \<^verbatim>\<open>static_for\<close> test under \<^verbatim>\<open>asm/\<close> returns \<^verbatim>\<open>state.continue_()\<close>: it keeps
  the accumulator. A body may also advance the state twice.
\<close>

definition keep_accumulator :: "('v::zero, 'x, 'w) body" where
  "keep_accumulator state x w = (continue_0 state, w)"

definition continue_twice :: "('v::zero, 'x, 'w) body" where
  "continue_twice state x w = (continue_0 (continue_0 state), w)"

text \<open>
  To see the calls the engine makes, a body is made to record each of its invocations
  in a log kept beside the world: the state and the element it was passed and the state
  it produced. \<open>invocations\<close> lists the same for the fold.
\<close>

record ('v, 'x) invocation =
  given :: "'v state"
  element :: 'x
  produced :: "'v state"

definition traced ::
  "('v, 'x, 'w) body \<Rightarrow> ('v, 'x, 'w \<times> ('v, 'x) invocation list) body" where
  "traced body state x = (\<lambda>(w, log).
     case body state x w of (next_state, w') \<Rightarrow>
       (next_state, (w', log @ [\<lparr>given = state, element = x, produced = next_state\<rparr>])))"

fun invocations ::
  "('v, 'x, 'w) body \<Rightarrow> 'v state \<times> 'w \<Rightarrow> 'x list \<Rightarrow> ('v, 'x) invocation list" where
  "invocations body sw [] = []"
| "invocations body sw (x # xs) =
     \<lparr>given = fst sw, element = x, produced = fst (body (fst sw) x (snd sw))\<rparr>
       # invocations body (body (fst sw) x (snd sw)) xs"

text \<open>A pure body computes the next state from the state and the element alone.\<close>

definition pure_body :: "('v state \<Rightarrow> 'x \<Rightarrow> 'v state) \<Rightarrow> ('v, 'x, 'w) body" where
  "pure_body f state x w = (f state x, w)"

text \<open>
  A callable cannot see the budget of the adapter it recurses through: what it returns
  with a \<open>self\<close> that returns in some cases, it returns with any \<open>self\<close> that returns the
  same in these cases and perhaps in more.
\<close>

definition fuel_monotone ::
  "(('a, 'r, 'w) callable \<Rightarrow> ('a, 'r, 'w) callable) \<Rightarrow> bool" where
  "fuel_monotone f \<longleftrightarrow>
     (\<forall>g g'. (\<forall>xs w v. g xs w = Inr v \<longrightarrow> g' xs w = Inr v)
        \<longrightarrow> (\<forall>xs w v. f g xs w = Inr v \<longrightarrow> f g' xs w = Inr v))"

section \<open>The state record: \<^verbatim>\<open>continue_\<close> and \<^verbatim>\<open>break_\<close>\<close>

lemmas state_defs =
  make_state_def iteration_def accumulator_def next_action_def advance_state_def
  continue_acc_def break_acc_def continue_0_def break_0_def

lemma value_init_decltype_idem: "decltype (value_init t) = t"
  by (cases t) simp_all

text \<open>
  Claim C4, as it is written, fails: a state keeps the type of the accumulator, not the
  object, so \<^verbatim>\<open>make_state(sz_v<0>, 7, a_continue{}).continue_(9).accumulator()\<close> is
  \<^verbatim>\<open>int{}\<close>, which is 0 and not 9.
\<close>

theorem continue_drops_run_time_accumulator:
  "accumulator (continue_acc (make_state 0 (run_time (7 :: int)) a_continue) (run_time (9 :: int)))
     = run_time 0
   \<and> accumulator (continue_acc (make_state 0 (run_time (7 :: int)) a_continue) (run_time (9 :: int)))
     \<noteq> run_time 9"
  by (simp add: state_defs)

text \<open>
  Claim C4, amended. For every state \<open>s\<close> and accumulator \<open>a\<close>, \<^verbatim>\<open>s.continue_(a)\<close> is the state with
  iteration \<open>s.iteration() + 1\<close>, action Continue and, as accumulator, the object that
  the type of \<open>a\<close> encodes (\<^verbatim>\<open>decltype(a){}\<close>): \<open>a\<close> itself when \<open>a\<close> is a type-encoded
  constant, the value-initialised object when \<open>a\<close> holds its value as data.
  \<^verbatim>\<open>s.break_(a)\<close> is the same with action Break, and the overloads without argument keep
  the accumulator of \<open>s\<close>. The operations are functions of \<open>s\<close> and \<open>a\<close> alone, defined on
  every state, and \<open>s\<close> itself is a value they cannot change.
\<close>

theorem state_advance:
  "iteration (continue_acc s a) = iteration s + 1
   \<and> accumulator (continue_acc s a) = value_init (decltype a)
   \<and> next_action (continue_acc s a) = a_continue
   \<and> iteration (break_acc s a) = iteration s + 1
   \<and> accumulator (break_acc s a) = value_init (decltype a)
   \<and> next_action (break_acc s a) = a_break
   \<and> accumulator (continue_acc s (encoded v)) = encoded v
   \<and> accumulator (break_acc s (encoded v)) = encoded v
   \<and> accumulator (continue_acc s (run_time v)) = run_time 0
   \<and> accumulator (break_acc s (run_time v)) = run_time 0
   \<and> iteration (continue_0 s') = iteration s' + 1
   \<and> accumulator (continue_0 s') = accumulator s'
   \<and> next_action (continue_0 s') = a_continue
   \<and> iteration (break_0 s') = iteration s' + 1
   \<and> accumulator (break_0 s') = accumulator s'
   \<and> next_action (break_0 s') = a_break"
  by (simp add: state_defs value_init_decltype_idem)

section \<open>The branch chain: the first match wins\<close>

lemma chain_from_result: "chain_from (static_if_result f) bs = static_if_result f"
  by (induction bs) auto

lemma chain_from_false:
  "chain_from (static_if_impl False) bs =
     (case find fst bs of None \<Rightarrow> static_if_impl False | Some b \<Rightarrow> static_if_result (snd b))"
proof (induction bs)
  case Nil
  show ?case by simp
next
  case (Cons b bs)
  obtain p h where b: "b = (p, h)" by (cases b)
  show ?case
    using Cons.IH by (cases p) (simp_all add: b static_if_def make_static_if_result_def chain_from_result)
qed

lemma branch_chain_selects:
  "branch_chain b bs d =
     (case find fst (b # bs) of
        Some c \<Rightarrow> static_if_result (snd c)
      | None \<Rightarrow> (case d of None \<Rightarrow> static_if_impl False | Some f \<Rightarrow> static_if_result f))"
proof -
  have "chain_from (then_f (static_if (fst b)) (snd b)) bs = chain_from (static_if_impl False) (b # bs)"
    by (cases b) (simp add: static_if_def)
  then show ?thesis
    unfolding branch_chain_def Let_def chain_from_false
    by (auto split: option.splits simp: make_static_if_result_def)
qed

lemma find_first:
  assumes "k < length bs" "P (bs ! k)" "\<forall>j<k. \<not> P (bs ! j)"
  shows "find P bs = Some (bs ! k)"
  using assms by (auto simp: find_Some_iff)

lemma fst_tagged: "fst (tagged c) = fst c"
  by (cases c) (simp add: tagged_def)

text \<open>
  Claim C1. In every branch chain where some predicate matches, the terminal call
  invokes exactly one handler: the one attached to the first predicate that is true, in
  the order of the chain. With every handler tagged, the call adds this handler's tag
  to the log and no other, and returns what this handler returns; the handlers of the
  predicates that do not match, those of the predicates after the match (whatever
  their value) and the default handler are not invoked.
\<close>

theorem first_match_wins:
  assumes "k < length (b # bs)" and "fst ((b # bs) ! k)" and "\<forall>j<k. \<not> fst ((b # bs) ! j)"
  shows "call (branch_chain (tagged b) (map tagged bs) (map_option (\<lambda>(n, f). tracked n f) d)) xs (w, log)
           = (case snd (snd ((b # bs) ! k)) xs w of
                Inl e \<Rightarrow> Inl e
              | Inr (r, w') \<Rightarrow> Inr (Some r, (w', log @ [fst (snd ((b # bs) ! k))])))"
proof -
  define cs where "cs = b # bs"
  have ts: "tagged b # map tagged bs = map tagged cs"
    by (simp add: cs_def)
  have k: "k < length cs" "fst (cs ! k)" "\<forall>j<k. \<not> fst (cs ! j)"
    using assms by (simp_all add: cs_def)
  have "find fst (map tagged cs) = Some (map tagged cs ! k)"
  proof (rule find_first)
    show "k < length (map tagged cs)" using k(1) by simp
    show "fst (map tagged cs ! k)" using k(1,2) by (simp add: fst_tagged)
    show "\<forall>j<k. \<not> fst (map tagged cs ! j)" using k(1,3) by (simp add: fst_tagged)
  qed
  then have sel: "branch_chain (tagged b) (map tagged bs) (map_option (\<lambda>(n, f). tracked n f) d)
      = static_if_result (snd (tagged (cs ! k)))"
    using k(1) unfolding branch_chain_selects ts by simp
  obtain p n h where c: "cs ! k = (p, n, h)" by (cases "cs ! k")
  show ?thesis
    unfolding sel cs_def [symmetric] c by (simp add: tagged_def tracked_def split: sum.splits)
qed

text \<open>
  The chain of \<^verbatim>\<open>consume\<close> on a liquid: \<^verbatim>\<open>drink\<close> runs once, \<^verbatim>\<open>eat\<close> and the default do not.
\<close>

theorem first_match_wins_witness:
  "call (branch_chain
           (tagged (False, ''eat'', (\<lambda>y w. Inr ((), w @ [''eating solid'']))))
           (map tagged [(True, ''drink'', (\<lambda>y w. Inr ((), w @ [''drinking liquid''])))])
           (map_option (\<lambda>(n, f). tracked n f)
              (Some (''reject'', (\<lambda>y w. Inr ((), w @ [''cannot consume''])))))) ''water'' ([], [])
     = Inr (Some (), ([''drinking liquid''], [''drink'']))"
  using first_match_wins [of 1 "(False, ''eat'', (\<lambda>y w. Inr ((), w @ [''eating solid''])))"
      "[(True, ''drink'', (\<lambda>y w. Inr ((), w @ [''drinking liquid''])))]"
      "Some (''reject'', (\<lambda>y w. Inr ((), w @ [''cannot consume''])))" "''water''" "[]" "[]"]
  by simp

text \<open>
  Claim C5. In every branch chain where no predicate matches and no default handler
  is given, the terminal call takes any arguments, returns \<^verbatim>\<open>void\<close> (no result) and leaves
  the world as it was: no handler is invoked.
\<close>

theorem unmatched_chain_is_noop:
  assumes "\<forall>c \<in> set (b # bs). \<not> fst c"
  shows "call (branch_chain b bs None) xs w = Inr (None, w)"
proof -
  have "find fst (b # bs) = None"
    using assms unfolding find_None_iff by blast
  then show ?thesis
    unfolding branch_chain_selects by simp
qed

theorem unmatched_chain_is_noop_witness:
  "call (branch_chain (False, (\<lambda>y w. Inr ((), w @ [''eating solid''])))
           [(False, (\<lambda>y w. Inr ((), w @ [''drinking liquid''])))] None) (0 :: int) [''before'']
     = Inr (None, [''before''])"
  using unmatched_chain_is_noop [of "(False, (\<lambda>y w. Inr ((), w @ [''eating solid''])))"
      "[(False, (\<lambda>y w. Inr ((), w @ [''drinking liquid''])))]" "0 :: int" "[''before'']"]
  by simp

section \<open>The branch chain: a resolved chain ignores what follows\<close>

lemma chain_extend_result: "chain_extend (static_if_result f) x = static_if_result f"
  by (cases x) simp_all

lemma foldl_chain_extend_result: "foldl chain_extend (static_if_result f) ops = static_if_result f"
  by (induction ops) (simp_all add: chain_extend_result)

text \<open>
  Claim C6. A chain resolves when \<^verbatim>\<open>then\<close> meets a true predicate or \<^verbatim>\<open>else_\<close> a false one.
  From then on every sequence of \<^verbatim>\<open>then\<close>, \<^verbatim>\<open>else_if\<close> and \<^verbatim>\<open>else_\<close> returns the resolved
  value itself and fails nowhere, and the terminal call invokes the handler selected
  first; so do \<^verbatim>\<open>else_\<close> followed by \<^verbatim>\<open>else_if\<close>, and \<^verbatim>\<open>else_\<close> twice.
\<close>

theorem resolved_chain_ignores_extensions:
  "foldl chain_extend (static_if_result f) ops = static_if_result f
   \<and> call (foldl chain_extend (static_if_result f) ops) xs w
       = (case f xs w of Inl e \<Rightarrow> Inl e | Inr (r, w') \<Rightarrow> Inr (Some r, w'))
   \<and> then_f (static_if True) f = static_if_result f
   \<and> else_f (static_if False) f = static_if_result f
   \<and> else_if (else_f (static_if False) f) p = static_if_result f
   \<and> else_f (else_f (static_if False) f) g = static_if_result f"
  by (simp add: foldl_chain_extend_result static_if_def make_static_if_result_def)

theorem resolved_chain_ignores_extensions_witness:
  "call (foldl chain_extend (then_f (static_if True) (\<lambda>y w. Inr ((), w @ [''eating solid''])))
           [op_else (\<lambda>y w. Inr ((), w @ [''cannot consume''])), op_else_if True,
            op_then (\<lambda>y w. Inr ((), w @ [''drinking liquid''])),
            op_else (\<lambda>y w. Inr ((), w @ [''cannot consume'']))]) ''banana'' []
     = Inr (Some (), [''eating solid''])"
  using resolved_chain_ignores_extensions [of "\<lambda>y w. Inr ((), w @ [''eating solid''])"
      "[op_else (\<lambda>y w. Inr ((), w @ [''cannot consume''])), op_else_if True,
        op_then (\<lambda>y w. Inr ((), w @ [''drinking liquid''])),
        op_else (\<lambda>y w. Inr ((), w @ [''cannot consume'']))]" "''banana''" "[]"]
  by (simp add: static_if_def make_static_if_result_def)

section \<open>The self-reference adapter: \<open>g(args...)\<close> is \<open>f(g, args...)\<close>\<close>

lemma y_combinator_Suc_stable:
  assumes "fuel_monotone f"
  shows "y_combinator n f xs w = Inr v \<Longrightarrow> y_combinator (Suc n) f xs w = Inr v"
proof (induction n arbitrary: xs w v)
  case 0
  then show ?case by simp
next
  case (Suc n)
  have "\<forall>xs w v. y_combinator n f xs w = Inr v \<longrightarrow> y_combinator (Suc n) f xs w = Inr v"
    using Suc.IH by blast
  moreover have "f (y_combinator n f) xs w = Inr v"
    using Suc.prems by simp
  ultimately have "f (y_combinator (Suc n) f) xs w = Inr v"
    using assms unfolding fuel_monotone_def by blast
  then show ?case by simp
qed

lemma y_combinator_stable:
  assumes "fuel_monotone f" and "y_combinator n f xs w = Inr v" and "n \<le> m"
  shows "y_combinator m f xs w = Inr v"
  using assms(3)
proof (induction m)
  case 0
  with assms(2) show ?case by simp
next
  case (Suc m)
  show ?case
  proof (cases "n = Suc m")
    case True
    with assms(2) show ?thesis by simp
  next
    case False
    with Suc.prems have "n \<le> m" by simp
    then have "y_combinator m f xs w = Inr v" by (rule Suc.IH)
    then show ?thesis by (rule y_combinator_Suc_stable [OF assms(1)])
  qed
qed

text \<open>
  Claim C7. For every callable \<open>f\<close> that takes a reference to itself first, the adapter
  \<open>g = y_combinator(f)\<close> returns on arguments \<open>xs\<close> what \<open>f(g, xs)\<close> returns. A call of the
  adapter is the call of \<open>f\<close> on the adapter, one nested call deeper; and when one of
  \<open>g(xs)\<close> and \<open>f(g, xs)\<close> returns \<open>v\<close> under some budget of nested calls, both return \<open>v\<close>
  under every larger budget, with the same \<open>g\<close> on both sides.
\<close>

theorem y_combinator_fixed_point:
  "y_combinator (Suc n) f xs w = f (y_combinator n f) xs w
   \<and> (fuel_monotone f \<longrightarrow>
        (y_combinator n f xs w = Inr v \<longrightarrow>
           (\<forall>m\<ge>n. y_combinator m f xs w = Inr v \<and> f (y_combinator m f) xs w = Inr v))
      \<and> (f (y_combinator n f) xs w = Inr v \<longrightarrow>
           (\<forall>m>n. y_combinator m f xs w = Inr v \<and> f (y_combinator m f) xs w = Inr v)))"
proof (intro conjI impI allI)
  show "y_combinator (Suc n) f xs w = f (y_combinator n f) xs w"
    by simp
next
  assume mono: "fuel_monotone f"
  have both: "y_combinator m f xs w = Inr v \<and> f (y_combinator m f) xs w = Inr v"
    if "y_combinator k f xs w = Inr v" and "k \<le> m" for k m
  proof -
    have "y_combinator m f xs w = Inr v"
      using mono that by (rule y_combinator_stable)
    moreover from this have "y_combinator (Suc m) f xs w = Inr v"
      by (rule y_combinator_Suc_stable [OF mono])
    ultimately show ?thesis by simp
  qed
  {
    fix m
    assume "y_combinator n f xs w = Inr v" and "n \<le> m"
    then show "y_combinator m f xs w = Inr v" and "f (y_combinator m f) xs w = Inr v"
      using both by blast+
  next
    fix m
    assume "f (y_combinator n f) xs w = Inr v" and "n < m"
    then have "y_combinator (Suc n) f xs w = Inr v" and "Suc n \<le> m"
      by simp_all
    then show "y_combinator m f xs w = Inr v" and "f (y_combinator m f) xs w = Inr v"
      using both by blast+
  }
qed

section \<open>The loop engine computes the fold up to the break point\<close>

lemma step_Cons:
  "step body self (state, x # xs) w =
     (case body state x w of (next_state, w1) \<Rightarrow>
        if next_action next_state = a_break \<or> xs = [] then Inr (accumulator next_state, w1)
        else self (next_state, xs) w1)"
  by (simp add: static_if_def make_static_if_result_def split: prod.splits sum.splits)

declare step.simps(2) [simp del]

lemma fold_body_Nil: "fold_body body sw [] = sw"
  by (simp add: fold_body_def)

lemma fold_body_Cons: "fold_body body (state, w) (x # xs) = fold_body body (body state x w) xs"
  by (simp add: fold_body_def)

lemma find_map_comp: "find P (map f xs) = map_option f (find (P \<circ> f) xs)"
  by (induction xs) simp_all

lemma break_point_Cons:
  "break_point body (state, w) (x # xs) =
     (if next_action (fst (body state x w)) = a_break then Some 0
      else map_option Suc (break_point body (body state x w) xs))"
proof -
  have upt: "[0..<length (x # xs)] = 0 # map Suc [0..<length xs]"
    by (simp add: upt_conv_Cons map_Suc_upt del: upt_Suc)
  show ?thesis
    unfolding break_point_def upt
    by (simp add: find_map_comp comp_def fold_body_Cons fold_body_Nil)
qed

lemma up_to_break_Cons:
  "up_to_break body (state, w) (x # xs) =
     x # (if next_action (fst (body state x w)) = a_break then []
          else up_to_break body (body state x w) xs)"
  by (simp add: up_to_break_def break_point_Cons split: option.splits)

lemma up_to_break_Nil: "up_to_break body sw [] = []"
  by (simp add: up_to_break_def break_point_def)

lemma y_combinator_step:
  assumes "xs \<noteq> []" and "length xs \<le> n"
  shows "y_combinator n (step body) (state, xs) w =
     Inr (accumulator (fst (fold_body body (state, w) (up_to_break body (state, w) xs))),
          snd (fold_body body (state, w) (up_to_break body (state, w) xs)))"
  using assms
proof (induction xs arbitrary: n state w)
  case Nil
  then show ?case by simp
next
  case (Cons x xs)
  then obtain m where n: "n = Suc m" and m: "length xs \<le> m"
    by (cases n) auto
  obtain next_state w1 where b: "body state x w = (next_state, w1)"
    by (cases "body state x w")
  show ?case
  proof (cases "next_action next_state = a_break \<or> xs = []")
    case True
    then show ?thesis
      by (auto simp: n step_Cons b up_to_break_Cons up_to_break_Nil fold_body_Cons fold_body_Nil)
  next
    case False
    then have "y_combinator m (step body) (next_state, xs) w1 =
      Inr (accumulator (fst (fold_body body (next_state, w1) (up_to_break body (next_state, w1) xs))),
           snd (fold_body body (next_state, w1) (up_to_break body (next_state, w1) xs)))"
      using Cons.IH [of m next_state w1] m by simp
    with False show ?thesis
      by (simp add: n step_Cons b up_to_break_Cons fold_body_Cons)
  qed
qed

lemma static_for_eq:
  assumes "length xs \<le> fuel"
  shows "static_for fuel body acc xs w =
     Inr (if xs = [] then acc
          else accumulator (fst (fold_body body (make_state 0 acc a_continue, w)
                                   (up_to_break body (make_state 0 acc a_continue, w) xs))),
          snd (fold_body body (make_state 0 acc a_continue, w)
                 (up_to_break body (make_state 0 acc a_continue, w) xs)))"
proof (cases "xs = []")
  case True
  then show ?thesis
    by (simp add: static_for_def static_if_def make_static_if_result_def up_to_break_Nil
        fold_body_Nil)
next
  case False
  then show ?thesis
    using y_combinator_step [OF False assms, of body "make_state 0 acc a_continue" w]
    by (simp add: static_for_def static_if_def make_static_if_result_def)
qed

lemma static_for_Nil: "static_for fuel body acc [] w = Inr (acc, w)"
  by (simp add: static_for_def static_if_def make_static_if_result_def)

text \<open>The \<^verbatim>\<open>step\<close> of every body is such a callable; the adapter on the \<^verbatim>\<open>step\<close> of the scenarios.\<close>

lemma fuel_monotone_step: "fuel_monotone (step body)"
  unfolding fuel_monotone_def
proof (intro allI impI)
  fix g g' :: "('a state \<times> 'b list, 'a object, 'c) callable" and a w v
  assume le: "\<forall>xs w v. g xs w = Inr v \<longrightarrow> g' xs w = Inr v"
    and r: "step body g a w = Inr v"
  obtain state xs where a: "a = (state, xs)" by (cases a)
  show "step body g' a w = Inr v"
  proof (cases xs)
    case Nil
    with r show ?thesis by (simp add: a)
  next
    case (Cons y ys)
    obtain next_state w1 where b: "body state y w = (next_state, w1)"
      by (cases "body state y w")
    show ?thesis
    proof (cases "next_action next_state = a_break \<or> ys = []")
      case True
      with r show ?thesis by (simp add: a Cons step_Cons b)
    next
      case False
      with r have "g (next_state, ys) w1 = Inr v"
        by (simp add: a Cons step_Cons b)
      with le have "g' (next_state, ys) w1 = Inr v"
        by blast
      with False show ?thesis
        by (simp add: a Cons step_Cons b)
    qed
  qed
qed

theorem y_combinator_fixed_point_witness:
  "fuel_monotone (step (add_unless_sentinel :: (int, int, unit) body))
   \<and> y_combinator 2 (step add_unless_sentinel) (make_state 0 (encoded 0) a_continue, [5, - 999, 15]) ()
       = Inr (encoded 5, ())
   \<and> y_combinator 7 (step add_unless_sentinel) (make_state 0 (encoded 0) a_continue, [5, - 999, 15]) ()
       = Inr (encoded 5, ())
   \<and> step add_unless_sentinel (y_combinator 7 (step add_unless_sentinel))
         (make_state 0 (encoded 0) a_continue, [5, - 999, 15]) ()
       = Inr (encoded 5, ())"
proof -
  have m: "fuel_monotone (step (add_unless_sentinel :: (int, int, unit) body))"
    by (rule fuel_monotone_step)
  have e: "y_combinator 2 (step add_unless_sentinel) (make_state 0 (encoded 0) a_continue, [5, - 999, 15]) ()
      = Inr (encoded 5, ())"
    by (simp add: eval_nat_numeral step_Cons add_unless_sentinel_def state_defs)
  from y_combinator_fixed_point [of 2 "step add_unless_sentinel"
      "(make_state 0 (encoded 0) a_continue, [5, - 999, 15])" "()" "(encoded 5, ())"] m e
  have "y_combinator 7 (step add_unless_sentinel) (make_state 0 (encoded 0) a_continue, [5, - 999, 15]) ()
       = Inr (encoded 5, ())
   \<and> step add_unless_sentinel (y_combinator 7 (step add_unless_sentinel))
         (make_state 0 (encoded 0) a_continue, [5, - 999, 15]) ()
       = Inr (encoded 5, ())"
    by simp
  with m e show ?thesis
    by (intro conjI) simp_all
qed

text \<open>
  Claim C2, as it is written, fails for an initial accumulator that holds its value as
  data: the initial state keeps its type only. \<^verbatim>\<open>static_for(body)(7)(int_v<1>)\<close> with the
  body \<^verbatim>\<open>state.continue_()\<close>, whose fold keeps the accumulator 7, returns \<^verbatim>\<open>int{}\<close>,
  which is 0.
\<close>

theorem loop_drops_run_time_accumulator:
  "static_for 1 keep_accumulator (run_time (7 :: int)) [1 :: int] () = Inr (run_time 0, ())
   \<and> static_for 1 keep_accumulator (run_time (7 :: int)) [1 :: int] () \<noteq> Inr (run_time 7, ())
   \<and> accumulator (make_state 0 (run_time (7 :: int)) a_continue) = run_time 0"
  by (simp add: static_for_eq up_to_break_Cons up_to_break_Nil fold_body_Cons fold_body_Nil
      keep_accumulator_def state_defs)

text \<open>
  Claim C2, amended. For every body, initial accumulator and non-empty input sequence,
  the loop returns the accumulator of the left fold of the body over the sequence up to
  the break point (over the whole sequence when no state with action Break is
  produced), given a budget of nested calls of at least the length of the sequence. The
  fold starts from the state the engine makes of the initial accumulator, whose
  accumulator is the object that the type of the initial accumulator encodes: the
  initial accumulator itself when it is a type-encoded constant, the value-initialised
  object when it holds its value as data. On the empty sequence the loop returns the
  initial accumulator, unchanged in both cases. With the body that adds \<open>x\<close> unless \<open>x\<close> is
  \<open>-999\<close>, \<^verbatim>\<open>loop(body)(0)(5, 4, 15, 35)\<close> on constants returns 59.
\<close>

theorem loop_is_fold_until_break:
  "(length xs \<le> fuel \<and> xs \<noteq> [] \<longrightarrow>
      static_for fuel body acc xs w =
        Inr (accumulator (fst (fold_body body (make_state 0 acc a_continue, w)
                                 (up_to_break body (make_state 0 acc a_continue, w) xs))),
             snd (fold_body body (make_state 0 acc a_continue, w)
                    (up_to_break body (make_state 0 acc a_continue, w) xs))))
   \<and> iteration (make_state 0 acc a_continue) = 0
   \<and> next_action (make_state 0 acc a_continue) = a_continue
   \<and> accumulator (make_state 0 acc a_continue) = value_init (decltype acc)
   \<and> accumulator (make_state 0 (encoded v) a_continue) = encoded v
   \<and> accumulator (make_state 0 (run_time v) a_continue) = run_time 0
   \<and> static_for fuel body acc [] w = Inr (acc, w)
   \<and> static_for 4 add_unless_sentinel (encoded 0) [5, 4, 15, 35] w0 = Inr (encoded 59, w0)"
proof (intro conjI impI)
  assume "length xs \<le> fuel \<and> xs \<noteq> []"
  then show "static_for fuel body acc xs w =
        Inr (accumulator (fst (fold_body body (make_state 0 acc a_continue, w)
                                 (up_to_break body (make_state 0 acc a_continue, w) xs))),
             snd (fold_body body (make_state 0 acc a_continue, w)
                    (up_to_break body (make_state 0 acc a_continue, w) xs)))"
    by (simp add: static_for_eq)
next
  show "static_for fuel body acc [] w = Inr (acc, w)"
    by (rule static_for_Nil)
next
  show "static_for 4 add_unless_sentinel (encoded 0) [5, 4, 15, 35] w0 = Inr (encoded 59, w0)"
    by (simp add: static_for_eq up_to_break_Cons up_to_break_Nil fold_body_Cons fold_body_Nil
        add_unless_sentinel_def state_defs)
qed (simp_all add: state_defs)

theorem loop_is_fold_until_break_witness:
  "(length [5, - 999, 15 :: int] \<le> 3 \<and> [5, - 999, 15 :: int] \<noteq> [])
   \<and> up_to_break add_unless_sentinel (make_state 0 (encoded 0) a_continue, ()) [5, - 999, 15]
       = [5, - 999]
   \<and> static_for 3 add_unless_sentinel (encoded 0) [5, - 999, 15] () = Inr (encoded 5, ())"
  using loop_is_fold_until_break [where xs = "[5, - 999, 15]" and fuel = 3
      and body = add_unless_sentinel and acc = "encoded 0" and w = "()" and ?w0.0 = "()"]
  by (simp add: up_to_break_Cons up_to_break_Nil fold_body_Cons fold_body_Nil
      add_unless_sentinel_def state_defs)

section \<open>The calls the engine makes\<close>

lemma fold_body_traced:
  "fold_body (traced body) (state, (w, log)) ys =
     (fst (fold_body body (state, w) ys),
      (snd (fold_body body (state, w) ys), log @ invocations body (state, w) ys))"
proof (induction ys arbitrary: state w log)
  case Nil
  show ?case by (simp add: fold_body_Nil)
next
  case (Cons y ys)
  obtain next_state w1 where b: "body state y w = (next_state, w1)"
    by (cases "body state y w")
  have "fold_body (traced body) (state, (w, log)) (y # ys) =
      fold_body (traced body)
        (next_state, (w1, log @ [\<lparr>given = state, element = y, produced = next_state\<rparr>])) ys"
    by (simp add: fold_body_Cons traced_def b)
  then show ?case
    by (simp add: Cons.IH fold_body_Cons b)
qed

lemma up_to_break_traced:
  "up_to_break (traced body) (state, (w, log)) xs = up_to_break body (state, w) xs"
proof (induction xs arbitrary: state w log)
  case Nil
  show ?case by (simp add: up_to_break_Nil)
next
  case (Cons x xs)
  obtain next_state w1 where b: "body state x w = (next_state, w1)"
    by (cases "body state x w")
  have t: "traced body state x (w, log) =
      (next_state, (w1, log @ [\<lparr>given = state, element = x, produced = next_state\<rparr>]))"
    by (simp add: traced_def b)
  show ?case
    by (simp add: up_to_break_Cons t b Cons.IH)
qed

lemma static_for_traced:
  assumes "length xs \<le> fuel"
  shows "static_for fuel (traced body) acc xs (w, log) =
     Inr (if xs = [] then acc
          else accumulator (fst (fold_body body (make_state 0 acc a_continue, w)
                                   (up_to_break body (make_state 0 acc a_continue, w) xs))),
          (snd (fold_body body (make_state 0 acc a_continue, w)
                  (up_to_break body (make_state 0 acc a_continue, w) xs)),
           log @ invocations body (make_state 0 acc a_continue, w)
                   (up_to_break body (make_state 0 acc a_continue, w) xs)))"
  by (simp add: static_for_eq [OF assms] up_to_break_traced fold_body_traced)

lemma element_invocations: "map element (invocations body sw ys) = ys"
  by (induction ys arbitrary: sw) simp_all

lemma length_invocations: "length (invocations body sw ys) = length ys"
  by (induction ys arbitrary: sw) simp_all

lemma invocations_Nil_iff: "invocations body sw ys = [] \<longleftrightarrow> ys = []"
  by (cases ys) simp_all

lemma up_to_break_prefix:
  "up_to_break body sw xs = take (length (up_to_break body sw xs)) xs"
proof (induction xs arbitrary: sw)
  case Nil
  show ?case by (simp add: up_to_break_Nil)
next
  case (Cons x xs)
  obtain state w where sw: "sw = (state, w)" by (cases sw)
  show ?case
    using Cons.IH [of "body state x w"] by (simp add: sw up_to_break_Cons)
qed

lemma up_to_break_nonempty: "xs \<noteq> [] \<Longrightarrow> up_to_break body sw xs \<noteq> []"
  by (cases xs; cases sw) (simp_all add: up_to_break_Cons)

lemma break_is_last:
  assumes "k < length (up_to_break body sw xs)"
    and "next_action (produced (invocations body sw (up_to_break body sw xs) ! k)) = a_break"
  shows "Suc k = length (up_to_break body sw xs)"
  using assms
proof (induction xs arbitrary: sw k)
  case Nil
  then show ?case by (simp add: up_to_break_Nil)
next
  case (Cons x xs)
  obtain state w where sw: "sw = (state, w)" by (cases sw)
  show ?case
  proof (cases "next_action (fst (body state x w)) = a_break")
    case True
    with Cons.prems show ?thesis by (simp add: sw up_to_break_Cons)
  next
    case False
    show ?thesis
    proof (cases k)
      case 0
      with Cons.prems False show ?thesis by (simp add: sw up_to_break_Cons)
    next
      case (Suc j)
      with Cons.prems False Cons.IH [of j "body state x w"] show ?thesis
        by (simp add: sw up_to_break_Cons)
    qed
  qed
qed

lemma stopped_early_by_break:
  assumes "length (up_to_break body sw xs) < length xs"
  shows "next_action (produced (last (invocations body sw (up_to_break body sw xs)))) = a_break"
  using assms
proof (induction xs arbitrary: sw)
  case Nil
  then show ?case by simp
next
  case (Cons x xs)
  obtain state w where sw: "sw = (state, w)" by (cases sw)
  show ?case
  proof (cases "next_action (fst (body state x w)) = a_break")
    case True
    then show ?thesis by (simp add: sw up_to_break_Cons)
  next
    case False
    then have "length (up_to_break body (body state x w) xs) < length xs"
      using Cons.prems by (simp add: sw up_to_break_Cons)
    then have "next_action (produced (last (invocations body (body state x w)
        (up_to_break body (body state x w) xs)))) = a_break"
      by (rule Cons.IH)
    moreover have "xs \<noteq> []"
      using \<open>length (up_to_break body (body state x w) xs) < length xs\<close> by auto
    then have "invocations body (body state x w) (up_to_break body (body state x w) xs) \<noteq> []"
      by (simp add: invocations_Nil_iff up_to_break_nonempty)
    ultimately show ?thesis
      using False by (simp add: sw up_to_break_Cons)
  qed
qed

lemma given_continue:
  assumes "next_action (fst sw) = a_continue"
    and "c \<in> set (invocations body sw (up_to_break body sw xs))"
  shows "next_action (given c) = a_continue"
  using assms
proof (induction xs arbitrary: sw)
  case Nil
  then show ?case by (simp add: up_to_break_Nil)
next
  case (Cons x xs)
  obtain state w where sw: "sw = (state, w)" by (cases sw)
  show ?case
  proof (cases "next_action (fst (body state x w)) = a_break")
    case True
    with Cons.prems show ?thesis by (auto simp: sw up_to_break_Cons)
  next
    case False
    then have "next_action (fst (body state x w)) = a_continue"
      by (cases "next_action (fst (body state x w))") simp_all
    with Cons.prems False Cons.IH [of "body state x w"] show ?thesis
      by (auto simp: sw up_to_break_Cons)
  qed
qed

text \<open>
  Claim C3. In every loop the body is invoked once for each visited element, in the
  order of the sequence: the elements of the recorded invocations are a prefix of the
  input. An invocation that produces a state with action Break is the last one, so no
  element after it is passed to the body; and the loop stops before the end of the
  sequence only on such a state. On \<open>(5, -999, 15)\<close> the body of the scenarios is invoked
  twice, on 5 and on \<open>-999\<close>, and the result is 5.
\<close>

theorem visits_in_order_until_break:
  "(length xs \<le> fuel \<longrightarrow>
      (\<exists>r w' L. static_for fuel (traced body) acc xs (w, []) = Inr (r, (w', L))
         \<and> map element L = take (length L) xs
         \<and> (xs \<noteq> [] \<longrightarrow> L \<noteq> [])
         \<and> (\<forall>k<length L. next_action (produced (L ! k)) = a_break \<longrightarrow> Suc k = length L)
         \<and> (length L < length xs \<longrightarrow> next_action (produced (last L)) = a_break)))
   \<and> static_for 3 (traced add_unless_sentinel) (encoded 0) [5, - 999, 15] (w0, []) =
       Inr (encoded 5, (w0,
         [\<lparr>given = \<lparr>TItr = 0, TAcc = encoded_t 0, TAction = a_continue\<rparr>, element = 5,
            produced = \<lparr>TItr = 1, TAcc = encoded_t 5, TAction = a_continue\<rparr>\<rparr>,
          \<lparr>given = \<lparr>TItr = 1, TAcc = encoded_t 5, TAction = a_continue\<rparr>, element = - 999,
            produced = \<lparr>TItr = 2, TAcc = encoded_t 5, TAction = a_break\<rparr>\<rparr>]))"
proof (intro conjI impI)
  let ?sw = "(make_state 0 acc a_continue, w)"
  let ?U = "up_to_break body ?sw xs"
  let ?L = "invocations body ?sw ?U"
  assume fuel: "length xs \<le> fuel"
  have len: "length ?L = length ?U"
    by (rule length_invocations)
  have "static_for fuel (traced body) acc xs (w, []) =
      Inr (if xs = [] then acc else accumulator (fst (fold_body body ?sw ?U)),
           (snd (fold_body body ?sw ?U), ?L))"
    using static_for_traced [OF fuel, of body acc w "[]"] by simp
  moreover have "map element ?L = take (length ?L) xs"
    unfolding len element_invocations by (rule up_to_break_prefix)
  moreover have "xs \<noteq> [] \<longrightarrow> ?L \<noteq> []"
    by (simp add: invocations_Nil_iff up_to_break_nonempty)
  moreover have "\<forall>k<length ?L. next_action (produced (?L ! k)) = a_break \<longrightarrow> Suc k = length ?L"
    unfolding len using break_is_last [of _ body ?sw xs] by blast
  moreover have "length ?L < length xs \<longrightarrow> next_action (produced (last ?L)) = a_break"
    unfolding len using stopped_early_by_break [of body ?sw xs] by blast
  ultimately show "\<exists>r w' L. static_for fuel (traced body) acc xs (w, []) = Inr (r, (w', L))
         \<and> map element L = take (length L) xs
         \<and> (xs \<noteq> [] \<longrightarrow> L \<noteq> [])
         \<and> (\<forall>k<length L. next_action (produced (L ! k)) = a_break \<longrightarrow> Suc k = length L)
         \<and> (length L < length xs \<longrightarrow> next_action (produced (last L)) = a_break)"
    by blast
next
  show "static_for 3 (traced add_unless_sentinel) (encoded 0) [5, - 999, 15] (w0, []) =
       Inr (encoded 5, (w0,
         [\<lparr>given = \<lparr>TItr = 0, TAcc = encoded_t 0, TAction = a_continue\<rparr>, element = 5,
            produced = \<lparr>TItr = 1, TAcc = encoded_t 5, TAction = a_continue\<rparr>\<rparr>,
          \<lparr>given = \<lparr>TItr = 1, TAcc = encoded_t 5, TAction = a_continue\<rparr>, element = - 999,
            produced = \<lparr>TItr = 2, TAcc = encoded_t 5, TAction = a_break\<rparr>\<rparr>]))"
    by (simp add: static_for_traced up_to_break_Cons up_to_break_Nil fold_body_Cons fold_body_Nil
        add_unless_sentinel_def state_defs)
qed

theorem visits_in_order_until_break_witness:
  "length [5, 4, - 999, 35 :: int] \<le> 4
   \<and> (\<exists>r w' L. static_for 4 (traced add_unless_sentinel) (encoded 0) [5, 4, - 999, 35] ((), []) = Inr (r, (w', L))
         \<and> r = encoded 9 \<and> map element L = [5, 4, - 999]
         \<and> next_action (produced (last L)) = a_break)"
proof -
  have h: "length [5, 4, - 999, 35 :: int] \<le> 4"
    by simp
  have e: "static_for 4 (traced add_unless_sentinel) (encoded 0) [5, 4, - 999, 35] ((), []) =
      Inr (encoded 9, ((),
         [\<lparr>given = \<lparr>TItr = 0, TAcc = encoded_t 0, TAction = a_continue\<rparr>, element = 5,
            produced = \<lparr>TItr = 1, TAcc = encoded_t 5, TAction = a_continue\<rparr>\<rparr>,
          \<lparr>given = \<lparr>TItr = 1, TAcc = encoded_t 5, TAction = a_continue\<rparr>, element = 4,
            produced = \<lparr>TItr = 2, TAcc = encoded_t 9, TAction = a_continue\<rparr>\<rparr>,
          \<lparr>given = \<lparr>TItr = 2, TAcc = encoded_t 9, TAction = a_continue\<rparr>, element = - 999,
            produced = \<lparr>TItr = 3, TAcc = encoded_t 9, TAction = a_break\<rparr>\<rparr>]))"
    by (simp add: static_for_traced up_to_break_Cons up_to_break_Nil fold_body_Cons fold_body_Nil
        add_unless_sentinel_def state_defs)
  from visits_in_order_until_break [of "[5, 4, - 999, 35]" 4 add_unless_sentinel "encoded 0" "()" "()"] h
  obtain r w' L where
    L: "static_for 4 (traced add_unless_sentinel) (encoded 0) [5, 4, - 999, 35] ((), []) = Inr (r, (w', L))"
      "map element L = take (length L) [5, 4, - 999, 35]"
      "length L < length [5, 4, - 999, 35 :: int] \<longrightarrow> next_action (produced (last L)) = a_break"
    by blast
  from L(1) e have "r = encoded 9" and "length L = 3"
    by auto
  with L h show ?thesis
    by (intro conjI exI [of _ r] exI [of _ w'] exI [of _ L]) simp_all
qed

text \<open>
  Claim C9. The engine never passes a state with action Break to the body: in every
  loop, each state the body is invoked on has action Continue.
\<close>

theorem body_sees_only_continue:
  assumes "length xs \<le> fuel"
  shows "\<exists>r w' L. static_for fuel (traced body) acc xs (w, []) = Inr (r, (w', L))
     \<and> (xs \<noteq> [] \<longrightarrow> L \<noteq> [])
     \<and> (\<forall>c \<in> set L. next_action (given c) = a_continue)"
proof -
  let ?sw = "(make_state 0 acc a_continue, w)"
  let ?U = "up_to_break body ?sw xs"
  let ?L = "invocations body ?sw ?U"
  have "static_for fuel (traced body) acc xs (w, []) =
      Inr (if xs = [] then acc else accumulator (fst (fold_body body ?sw ?U)),
           (snd (fold_body body ?sw ?U), ?L))"
    using static_for_traced [OF assms, of body acc w "[]"] by simp
  moreover have "xs \<noteq> [] \<longrightarrow> ?L \<noteq> []"
    by (simp add: invocations_Nil_iff up_to_break_nonempty)
  moreover have "next_action (fst ?sw) = a_continue"
    by (simp add: state_defs)
  then have "\<forall>c \<in> set ?L. next_action (given c) = a_continue"
    using given_continue [of ?sw _ body xs] by blast
  ultimately show ?thesis
    by blast
qed

theorem body_sees_only_continue_witness:
  "length [5, - 999, 15 :: int] \<le> 3
   \<and> (\<exists>r w' L. static_for 3 (traced add_unless_sentinel) (encoded 0) [5, - 999, 15] ((), []) = Inr (r, (w', L))
         \<and> length L = 2 \<and> (\<forall>c \<in> set L. next_action (given c) = a_continue))"
proof -
  have h: "length [5, - 999, 15 :: int] \<le> 3"
    by simp
  have e: "\<exists>a b. static_for 3 (traced add_unless_sentinel) (encoded 0) [5, - 999, 15] ((), []) = Inr (encoded 5, ((), [a, b]))"
    by (simp add: static_for_traced up_to_break_Cons up_to_break_Nil fold_body_Cons fold_body_Nil
        add_unless_sentinel_def state_defs)
  from body_sees_only_continue [OF h, of add_unless_sentinel "encoded 0" "()"]
  obtain r w' L where
    L: "static_for 3 (traced add_unless_sentinel) (encoded 0) [5, - 999, 15] ((), []) = Inr (r, (w', L))"
      "\<forall>c \<in> set L. next_action (given c) = a_continue"
    by blast
  from L(1) e have "length L = 2"
    by auto
  with L h show ?thesis
    by blast
qed

lemma iteration_advance:
  "iteration (continue_acc s a) = iteration s + 1" "iteration (break_acc s a) = iteration s + 1"
  by (simp_all add: state_defs)

lemma iteration_given:
  assumes "\<forall>state x w. iteration (fst (body state x w)) = iteration state + 1"
    and "k < length ys"
  shows "iteration (given (invocations body sw ys ! k)) = iteration (fst sw) + of_nat k
       \<and> iteration (produced (invocations body sw ys ! k)) = iteration (fst sw) + of_nat (Suc k)"
  using assms(2)
proof (induction ys arbitrary: sw k)
  case Nil
  then show ?case by simp
next
  case (Cons y ys)
  show ?case
  proof (cases k)
    case 0
    then show ?thesis by (simp add: assms(1))
  next
    case (Suc j)
    with Cons.prems have "j < length ys" by simp
    from Cons.IH [OF this, of "body (fst sw) y (snd sw)"] show ?thesis
      by (simp add: Suc assms(1) add.assoc)
  qed
qed

text \<open>
  Claim C10, as it is written, fails: the engine passes on whatever state the body
  returns. With the body \<^verbatim>\<open>state.continue_().continue_()\<close> the states passed to the body
  have iterations 0, 2 and 4: the state passed on the element at position 1 has
  iteration 2.
\<close>

theorem iteration_skips_with_double_continue:
  "static_for 3 (traced continue_twice) (encoded (0 :: int)) [10, 20, 30 :: int] ((), []) =
     Inr (encoded 0, ((),
       [\<lparr>given = \<lparr>TItr = 0, TAcc = encoded_t 0, TAction = a_continue\<rparr>, element = 10,
          produced = \<lparr>TItr = 2, TAcc = encoded_t 0, TAction = a_continue\<rparr>\<rparr>,
        \<lparr>given = \<lparr>TItr = 2, TAcc = encoded_t 0, TAction = a_continue\<rparr>, element = 20,
          produced = \<lparr>TItr = 4, TAcc = encoded_t 0, TAction = a_continue\<rparr>\<rparr>,
        \<lparr>given = \<lparr>TItr = 4, TAcc = encoded_t 0, TAction = a_continue\<rparr>, element = 30,
          produced = \<lparr>TItr = 6, TAcc = encoded_t 0, TAction = a_continue\<rparr>\<rparr>]))
   \<and> iteration \<lparr>TItr = 2, TAcc = encoded_t (0 :: int), TAction = a_continue\<rparr> = 2
   \<and> iteration \<lparr>TItr = 2, TAcc = encoded_t (0 :: int), TAction = a_continue\<rparr> \<noteq> 1"
  by (simp add: static_for_traced up_to_break_Cons up_to_break_Nil fold_body_Cons fold_body_Nil
      continue_twice_def state_defs)

text \<open>
  Claim C10, amended. In every loop whose body returns \<^verbatim>\<open>continue_\<close> or \<^verbatim>\<open>break_\<close>, applied
  once to the state it is passed, the state passed to the body on the \<open>k\<close>-th visited
  element (from 0) has iteration \<open>k\<close>, the number of invocations completed before, and
  the state it produces has iteration \<open>k + 1\<close>; the iteration is a \<^verbatim>\<open>std::size_t\<close>, equal to
  \<open>k\<close> as a number below \<open>2 ^ 64\<close>.
\<close>

theorem iteration_counts_invocations:
  assumes "\<forall>state x w. \<exists>a. fst (body state x w) = continue_acc state a
              \<or> fst (body state x w) = break_acc state a"
    and "length xs \<le> fuel"
  shows "\<exists>r w' L. static_for fuel (traced body) acc xs (w, []) = Inr (r, (w', L))
     \<and> (xs \<noteq> [] \<longrightarrow> L \<noteq> [])
     \<and> (\<forall>k<length L. iteration (given (L ! k)) = of_nat k
            \<and> iteration (produced (L ! k)) = of_nat (Suc k)
            \<and> (k < 2 ^ 64 \<longrightarrow> unat (iteration (given (L ! k))) = k))"
proof -
  let ?sw = "(make_state 0 acc a_continue, w)"
  let ?U = "up_to_break body ?sw xs"
  let ?L = "invocations body ?sw ?U"
  have adv: "\<forall>state x w. iteration (fst (body state x w)) = iteration state + 1"
  proof (intro allI)
    fix state x w
    from assms(1) obtain a where "fst (body state x w) = continue_acc state a
        \<or> fst (body state x w) = break_acc state a"
      by blast
    then show "iteration (fst (body state x w)) = iteration state + 1"
      by (auto simp: iteration_advance)
  qed
  have "static_for fuel (traced body) acc xs (w, []) =
      Inr (if xs = [] then acc else accumulator (fst (fold_body body ?sw ?U)),
           (snd (fold_body body ?sw ?U), ?L))"
    using static_for_traced [OF assms(2), of body acc w "[]"] by simp
  moreover have "xs \<noteq> [] \<longrightarrow> ?L \<noteq> []"
    by (simp add: invocations_Nil_iff up_to_break_nonempty)
  moreover have "iteration (given (?L ! k)) = of_nat k
      \<and> iteration (produced (?L ! k)) = of_nat (Suc k)
      \<and> (k < 2 ^ 64 \<longrightarrow> unat (iteration (given (?L ! k))) = k)" if "k < length ?L" for k
  proof -
    from that have "k < length ?U"
      by (simp add: length_invocations)
    from iteration_given [OF adv this, of ?sw]
    have g: "iteration (given (?L ! k)) = of_nat k"
      and p: "iteration (produced (?L ! k)) = of_nat (Suc k)"
      by (simp_all add: state_defs)
    have "unat (iteration (given (?L ! k))) = k" if "k < 2 ^ 64"
      unfolding g using that by (simp add: unat_of_nat)
    with g p show ?thesis
      by blast
  qed
  ultimately show ?thesis
    by blast
qed

lemma add_unless_sentinel_advances:
  "\<exists>a. fst (add_unless_sentinel state x w) = continue_acc state a
     \<or> fst (add_unless_sentinel state x w) = break_acc state a"
  by (auto simp: add_unless_sentinel_def break_0_def)

theorem iteration_counts_invocations_witness:
  "(\<forall>state x w. \<exists>a. fst (add_unless_sentinel state x (w :: unit)) = continue_acc state a
        \<or> fst (add_unless_sentinel state x w) = break_acc state a)
   \<and> length [5, 4, 15 :: int] \<le> 3
   \<and> (\<exists>r w' L. static_for 3 (traced add_unless_sentinel) (encoded 0) [5, 4, 15] ((), []) = Inr (r, (w', L))
         \<and> map (\<lambda>c. iteration (given c)) L = [0, 1, 2]
         \<and> map (\<lambda>c. unat (iteration (given c))) L = [0, 1, 2])"
proof -
  have b: "\<forall>state x w. \<exists>a. fst (add_unless_sentinel state x (w :: unit)) = continue_acc state a
        \<or> fst (add_unless_sentinel state x w) = break_acc state a"
    by (simp add: add_unless_sentinel_advances)
  have h: "length [5, 4, 15 :: int] \<le> 3"
    by simp
  have e: "\<exists>a b c. static_for 3 (traced add_unless_sentinel) (encoded 0) [5, 4, 15] ((), []) =
      Inr (encoded 24, ((), [a, b, c]))"
    by (simp add: static_for_traced up_to_break_Cons up_to_break_Nil fold_body_Cons fold_body_Nil
        add_unless_sentinel_def state_defs)
  from iteration_counts_invocations [OF b h, of "encoded 0" "()"]
  obtain r w' L where
    L: "static_for 3 (traced add_unless_sentinel) (encoded 0) [5, 4, 15] ((), []) = Inr (r, (w', L))"
      "\<forall>k<length L. iteration (given (L ! k)) = of_nat k
          \<and> (k < 2 ^ 64 \<longrightarrow> unat (iteration (given (L ! k))) = k)"
    by blast
  from L(1) e obtain a b c where abc: "L = [a, b, c]"
    by auto
  from L(2) [rule_format, of 0] L(2) [rule_format, of 1] L(2) [rule_format, of 2]
  have "iteration (given (L ! 0)) = 0 \<and> iteration (given (L ! 1)) = 1
      \<and> iteration (given (L ! 2)) = 2 \<and> unat (iteration (given (L ! 0))) = 0
      \<and> unat (iteration (given (L ! 1))) = 1 \<and> unat (iteration (given (L ! 2))) = 2"
    unfolding abc by simp
  then have m: "map (\<lambda>c. iteration (given c)) L = [0, 1, 2]
      \<and> map (\<lambda>c. unat (iteration (given c))) L = [0, 1, 2]"
    unfolding abc by simp
  have "\<exists>r w' L. static_for 3 (traced add_unless_sentinel) (encoded 0) [5, 4, 15] ((), []) = Inr (r, (w', L))
         \<and> map (\<lambda>c. iteration (given c)) L = [0, 1, 2]
         \<and> map (\<lambda>c. unat (iteration (given c))) L = [0, 1, 2]"
    using L(1) m by (intro exI [of _ r] exI [of _ w'] exI [of _ L]) (rule conjI)
  with b h show ?thesis
    by (intro conjI)
qed

section \<open>Pure bodies\<close>

lemma fold_body_pure: "fold_body (pure_body f) (state, w) ys = (foldl f state ys, w)"
  by (induction ys arbitrary: state) (simp_all add: fold_body_Nil fold_body_Cons pure_body_def)

lemma up_to_break_pure:
  "up_to_break (pure_body f) (state, w) xs = up_to_break (pure_body f) (state, ()) xs"
proof (induction xs arbitrary: state)
  case Nil
  show ?case by (simp add: up_to_break_Nil)
next
  case (Cons x xs)
  have "pure_body f state x w = (f state x, w)" and "pure_body f state x () = (f state x, ())"
    by (simp_all add: pure_body_def)
  then show ?case
    by (simp only: up_to_break_Cons fst_conv Cons.IH [of "f state x"])
qed

text \<open>
  Claim C8. With a pure body the loop is deterministic: two invocations with the same
  initial accumulator and the same elements return the same accumulator, whatever
  the world each runs in and the budget it has, and leave the world as it was.
\<close>

theorem pure_loop_is_deterministic:
  assumes "length xs \<le> fuel1" and "length xs \<le> fuel2"
  shows "\<exists>r. static_for fuel1 (pure_body f) acc xs w1 = Inr (r, w1)
     \<and> static_for fuel2 (pure_body f) acc xs w2 = Inr (r, w2)"
proof -
  let ?r = "if xs = [] then acc
    else accumulator (foldl f (make_state 0 acc a_continue)
      (up_to_break (pure_body f) (make_state 0 acc a_continue, ()) xs))"
  have 1: "static_for fuel1 (pure_body f) acc xs w1 = Inr (?r, w1)"
    unfolding static_for_eq [OF assms(1)] fold_body_pure up_to_break_pure [of f _ w1] by simp
  have 2: "static_for fuel2 (pure_body f) acc xs w2 = Inr (?r, w2)"
    unfolding static_for_eq [OF assms(2)] fold_body_pure up_to_break_pure [of f _ w2] by simp
  from 1 2 show ?thesis
    by blast
qed

theorem pure_loop_is_deterministic_witness:
  "length [5, 4, 15, 35 :: int] \<le> 4 \<and> length [5, 4, 15, 35 :: int] \<le> 9
   \<and> static_for 4
         (pure_body (\<lambda>state x. continue_acc state (encoded (value_of (accumulator state) + x))))
         (encoded 0) [5, 4, 15, 35 :: int] ''first run'' = Inr (encoded (59 :: int), ''first run'')
   \<and> static_for 9
         (pure_body (\<lambda>state x. continue_acc state (encoded (value_of (accumulator state) + x))))
         (encoded 0) [5, 4, 15, 35 :: int] (Some True) = Inr (encoded (59 :: int), Some True)"
proof -
  have h: "length [5, 4, 15, 35 :: int] \<le> 4" "length [5, 4, 15, 35 :: int] \<le> 9"
    by simp_all
  have e: "static_for 4
         (pure_body (\<lambda>state x. continue_acc state (encoded (value_of (accumulator state) + x))))
         (encoded 0) [5, 4, 15, 35 :: int] ''first run'' = Inr (encoded (59 :: int), ''first run'')"
    by (simp add: static_for_eq up_to_break_Cons up_to_break_Nil fold_body_Cons fold_body_Nil
        pure_body_def state_defs)
  from pure_loop_is_deterministic [OF h,
      of "\<lambda>state x. continue_acc state (encoded (value_of (accumulator state) + x))"
      "encoded 0" "''first run''" "Some True"] e
  have "static_for 9
         (pure_body (\<lambda>state x. continue_acc state (encoded (value_of (accumulator state) + x))))
         (encoded 0) [5, 4, 15, 35 :: int] (Some True) = Inr (encoded (59 :: int), Some True)"
    by auto
  with h e show ?thesis
    by (intro conjI)
qed

end
